theory Spec2Isabelle
  imports Main "HOL-Library.Word"
begin

section \<open>The SecretVault contract (contracts/SecretVault.sol)\<close>

text \<open>
  Solidity value types. An \<open>address\<close> is 160 bits. \<open>eaddress\<close> and \<open>euint256\<close> (and their
  \<open>external\<close> forms) are user-defined value types over \<open>bytes32\<close>: opaque ciphertext handles.
  \<open>uint256\<close> lengths, indices and timestamps are natural numbers here: the only arithmetic
  the contract performs on them is \<open>length - 1\<close>, whose checked subtraction is written out.
\<close>

type_synonym address = "160 word"
type_synonym handle = "256 word"
type_synonym eaddress = handle
type_synonym euint256 = handle
type_synonym externalEaddress = handle
type_synonym externalEuint256 = handle
type_synonym bytes = "8 word list"
type_synonym uint256 = nat

record SecretEntry =
  encryptedKey :: eaddress
  encryptedSecret :: euint256
  createdAt :: uint256

text \<open>The event \<open>SecretStored(address indexed owner, uint256 indexed index, uint256 timestamp)\<close>.\<close>

record SecretStored =
  ev_owner :: address
  ev_index :: uint256
  ev_timestamp :: uint256

text \<open>
  What a call can change: the contract's own storage (\<open>mapping(address => SecretEntry[])\<close>,
  a total map whose default is the empty array), the allow-list kept by the
  confidential-computing service, and the event log.
\<close>

record vault_state =
  entries :: "address \<Rightarrow> SecretEntry list"
  acl :: "(handle \<times> address) set"
  events :: "SecretStored list"

definition init_state :: vault_state where
  "init_state = \<lparr>entries = (\<lambda>_. []), acl = {}, events = []\<rparr>"

text \<open>The part of the transaction environment the contract reads.\<close>

record call_ctx =
  msg_sender :: address
  block_timestamp :: uint256

datatype error =
    InvalidProof          \<comment> \<open>\<open>FHE.fromExternal\<close> reverts\<close>
  | IndexOutOfRange       \<comment> \<open>array index out of bounds, Solidity's \<open>Panic(0x32)\<close>\<close>
  | ArithmeticUnderflow   \<comment> \<open>checked subtraction, Solidity's \<open>Panic(0x11)\<close>\<close>

text \<open>Solidity 0.8 subtraction on unsigned integers reverts instead of wrapping.\<close>

definition checked_sub :: "uint256 \<Rightarrow> uint256 \<Rightarrow> error + uint256" where
  "checked_sub a b = (if a < b then Inl ArithmeticUnderflow else Inr (a - b))"

text \<open>
  Modelled from the spec: the library \<open>@fhevm/solidity\<close> (\<open>FHE.fromExternal\<close>,
  \<open>FHE.allowThis\<close>, \<open>FHE.allow\<close>) is an external collaborator whose code is not part of the
  repository. Proof verification is a parameter: \<open>V contract user h proof\<close> is the
  materialized handle when \<open>proof\<close> authenticates the external ciphertext \<open>h\<close> for the
  context (contract, user), and \<open>None\<close> otherwise, in which case the call fails. A grant
  adds a pair to the allow-list; it is idempotent and there is no revoke.
\<close>

type_synonym input_verifier = "address \<Rightarrow> address \<Rightarrow> handle \<Rightarrow> bytes \<Rightarrow> handle option"

definition fromExternal ::
  "input_verifier \<Rightarrow> address \<Rightarrow> call_ctx \<Rightarrow> handle \<Rightarrow> bytes \<Rightarrow> error + handle" where
  "fromExternal V this ctx inputHandle inputProof =
     (case V this (msg_sender ctx) inputHandle inputProof of
        None \<Rightarrow> Inl InvalidProof
      | Some h \<Rightarrow> Inr h)"

definition allow :: "handle \<Rightarrow> address \<Rightarrow> vault_state \<Rightarrow> vault_state" where
  "allow h account s = s\<lparr>acl := insert (h, account) (acl s)\<rparr>"

definition allowThis :: "address \<Rightarrow> handle \<Rightarrow> vault_state \<Rightarrow> vault_state" where
  "allowThis this h s = allow h this s"

definition push_entry :: "address \<Rightarrow> SecretEntry \<Rightarrow> vault_state \<Rightarrow> vault_state" where
  "push_entry a e s = s\<lparr>entries := (entries s)(a := entries s a @ [e])\<rparr>"

definition emit :: "SecretStored \<Rightarrow> vault_state \<Rightarrow> vault_state" where
  "emit ev s = s\<lparr>events := events s @ [ev]\<rparr>"

text \<open>
  \<open>storeSecret\<close>, statement by statement. \<open>this\<close> is the contract's own address
  (\<open>address(this)\<close>). The result is the state after the call, or the error it reverts with.
\<close>

definition storeSecret ::
  "input_verifier \<Rightarrow> address \<Rightarrow> call_ctx \<Rightarrow> externalEaddress \<Rightarrow> externalEuint256 \<Rightarrow> bytes
     \<Rightarrow> vault_state \<Rightarrow> error + vault_state" where
  "storeSecret V this ctx encKey encSecret inputProof s =
     (case fromExternal V this ctx encKey inputProof of
        Inl e \<Rightarrow> Inl e
      | Inr key \<Rightarrow>
     (case fromExternal V this ctx encSecret inputProof of
        Inl e \<Rightarrow> Inl e
      | Inr secret \<Rightarrow>
     (let s1 = push_entry (msg_sender ctx)
                 \<lparr>encryptedKey = key, encryptedSecret = secret,
                  createdAt = block_timestamp ctx\<rparr> s
      in case checked_sub (length (entries s1 (msg_sender ctx))) 1 of
           Inl e \<Rightarrow> Inl e
         | Inr index \<Rightarrow>
             Inr (emit \<lparr>ev_owner = msg_sender ctx, ev_index = index,
                        ev_timestamp = block_timestamp ctx\<rparr>
                   (allow secret (msg_sender ctx)
                     (allow key (msg_sender ctx)
                       (allowThis this secret
                         (allowThis this key s1))))))))"

definition getSecretCount :: "vault_state \<Rightarrow> address \<Rightarrow> uint256" where
  "getSecretCount s owner = length (entries s owner)"

definition getSecretEntry ::
  "vault_state \<Rightarrow> address \<Rightarrow> uint256 \<Rightarrow> error + (eaddress \<times> euint256 \<times> uint256)" where
  "getSecretEntry s owner index =
     (if index < length (entries s owner)
      then (let entry = entries s owner ! index
            in Inr (encryptedKey entry, encryptedSecret entry, createdAt entry))
      else Inl IndexOutOfRange)"

subsection \<open>Calls as the ledger executes them\<close>

text \<open>
  An external call runs in a transaction: a call that reverts leaves the state as it was
  before the call, and the two \<open>view\<close> functions cannot write. Every call is made by
  some principal (\<open>msg_sender\<close>), also the reads.
\<close>

datatype call =
    StoreSecret externalEaddress externalEuint256 bytes
  | GetSecretCount address
  | GetSecretEntry address uint256

datatype retval =
    Stored
  | Count uint256
  | Entry eaddress euint256 uint256

fun exec ::
  "input_verifier \<Rightarrow> address \<Rightarrow> call_ctx \<Rightarrow> call \<Rightarrow> vault_state
     \<Rightarrow> vault_state \<times> (error + retval)" where
  "exec V this ctx (StoreSecret k x p) s =
     (case storeSecret V this ctx k x p s of
        Inl e \<Rightarrow> (s, Inl e)
      | Inr s' \<Rightarrow> (s', Inr Stored))"
| "exec V this ctx (GetSecretCount owner) s = (s, Inr (Count (getSecretCount s owner)))"
| "exec V this ctx (GetSecretEntry owner index) s =
     (case getSecretEntry s owner index of
        Inl e \<Rightarrow> (s, Inl e)
      | Inr (k, x, t) \<Rightarrow> (s, Inr (Entry k x t)))"

text \<open>A history of the contract: the calls made since deployment, each with its context.\<close>

fun run ::
  "input_verifier \<Rightarrow> address \<Rightarrow> (call_ctx \<times> call) list \<Rightarrow> vault_state \<Rightarrow> vault_state" where
  "run V this [] s = s"
| "run V this ((ctx, c) # cs) s = run V this cs (fst (exec V this ctx c s))"

text \<open>The input proof authenticates both external ciphertexts for this call's context.\<close>

definition proof_ok ::
  "input_verifier \<Rightarrow> address \<Rightarrow> call_ctx \<Rightarrow> handle \<Rightarrow> handle \<Rightarrow> bytes \<Rightarrow> bool" where
  "proof_ok V this ctx k x p \<longleftrightarrow>
     V this (msg_sender ctx) k p \<noteq> None \<and> V this (msg_sender ctx) x p \<noteq> None"

text \<open>The number of successful \<open>storeSecret\<close> calls that \<open>owner\<close> made in a history.\<close>

fun stored_by :: "input_verifier \<Rightarrow> address \<Rightarrow> address \<Rightarrow> call_ctx \<times> call \<Rightarrow> bool" where
  "stored_by V this owner (ctx, StoreSecret k x p) =
     (msg_sender ctx = owner \<and> proof_ok V this ctx k x p)"
| "stored_by V this owner (ctx, GetSecretCount a) = False"
| "stored_by V this owner (ctx, GetSecretEntry a i) = False"

definition successful_stores ::
  "input_verifier \<Rightarrow> address \<Rightarrow> address \<Rightarrow> (call_ctx \<times> call) list \<Rightarrow> nat" where
  "successful_stores V this owner cs = length (filter (stored_by V this owner) cs)"

text \<open>
  Every grant on the allow-list is held by the vault itself or by an owner one of whose
  entries carries the handle.
\<close>

definition grants_confined :: "address \<Rightarrow> vault_state \<Rightarrow> bool" where
  "grants_confined this s \<longleftrightarrow>
     (\<forall>(h, a) \<in> acl s. a = this \<or>
        (\<exists>e \<in> set (entries s a). h = encryptedKey e \<or> h = encryptedSecret e))"

text \<open>
  A verifier for the examples below: it accepts exactly the one-byte proof \<open>0x01\<close> and
  materializes the external handle unchanged.
\<close>

definition demo_verifier :: input_verifier where
  "demo_verifier contract user h inputProof = (if inputProof = [1] then Some h else None)"

definition demo_ctx :: call_ctx where
  "demo_ctx = \<lparr>msg_sender = 2, block_timestamp = 1700000000\<rparr>"

definition demo_ctx' :: call_ctx where
  "demo_ctx' = \<lparr>msg_sender = 3, block_timestamp = 1700000012\<rparr>"

text \<open>The state after the owner \<open>2\<close> has stored one entry.\<close>

definition demo_state :: vault_state where
  "demo_state =
     \<lparr>entries = (\<lambda>_. [])(2 := [\<lparr>encryptedKey = 5, encryptedSecret = 6,
                                     createdAt = 1700000000\<rparr>]),
      acl = {(6, 2), (5, 2), (6, 1), (5, 1)},
      events = [\<lparr>ev_owner = 2, ev_index = 0, ev_timestamp = 1700000000\<rparr>]\<rparr>"


section \<open>Client-side encoding (tasks/SecretVault.ts, ui/src/components/SecretApp.tsx)\<close>

text \<open>
  A JavaScript string is a sequence of UTF-16 code units, and the secret that the user
  passes is such a sequence (\<open>jsstring\<close>): it may hold surrogates, paired or not. The
  strings that the client builds itself, hexadecimal forms and addresses, are ASCII and
  are written as \<open>string\<close>; a decoded text is given by its UTF-8 bytes, one \<open>char\<close> per
  byte.
\<close>

unbundle bit_operations_syntax



datatype utf8_error =
  UNEXPECTED_CONTINUE | BAD_PREFIX | OVERRUN | MISSING_CONTINUE | OUT_OF_RANGE
  | UTF16_SURROGATE | OVERLONG

datatype js_error =
    SecretEmpty                 \<comment> \<open>"Secret must not be empty"\<close>
  | SecretTooLong               \<comment> \<open>"Secret must be 31 bytes or less"\<close>
  | InvalidSurrogatePair        \<comment> \<open>"invalid surrogate pair"\<close>
  | Bytes32TooLong              \<comment> \<open>"bytes32 string must be less than 32 bytes"\<close>
  | NotBytes32                  \<comment> \<open>"invalid bytes32 - not 32 bytes long"\<close>
  | NoNullTerminator            \<comment> \<open>"invalid bytes32 string - no null terminator"\<close>
  | InvalidCodepoint utf8_error \<comment> \<open>"invalid codepoint"\<close>
  | NumericFault                \<comment> \<open>negative value, or "value exceeds width"\<close>
  | InvalidBytesLike            \<comment> \<open>"invalid BytesLike value"\<close>
  | BufferOverrun               \<comment> \<open>"padding exceeds data length"\<close>
  | SyntaxError                 \<comment> \<open>\<open>BigInt\<close> of a string that is no integer literal\<close>
  | InvalidAddress              \<comment> \<open>"invalid address"\<close>
  | BadAddressChecksum          \<comment> \<open>"bad address checksum"\<close>
  | IcapAddress                 \<comment> \<open>an ICAP address \<open>XE\<dots>\<close>, which the library converts: not modelled\<close>

definition byte_of_char :: "char \<Rightarrow> 8 word" where
  "byte_of_char c = of_nat (of_char c)"

definition char_of_byte :: "8 word \<Rightarrow> char" where
  "char_of_byte b = char_of (unat b)"

subsection \<open>The functions of the ethers library that the client calls\<close>

text \<open>
  Modelled from the spec: the spec gives the secret "a fixed 32-byte slot with a defined
  encoding/decoding round trip" and leaves the encoding to the library. The library
  (ethers, version 6) is an external dependency whose code is not part of the repository;
  its functions \<open>toUtf8Bytes\<close>, \<open>toUtf8String\<close>, \<open>hexlify\<close>, \<open>getBytes\<close>, \<open>zeroPadBytes\<close>,
  \<open>toBeHex\<close>, \<open>encodeBytes32String\<close>, \<open>decodeBytes32String\<close> and \<open>getAddress\<close> are written
  here as the library documents and implements them, each with the errors it throws.
\<close>


text \<open>The lead byte of a multi-byte sequence: how many bytes follow, and the overlong mask.\<close>

definition multibyte :: "8 word \<Rightarrow> utf8_error + nat \<times> nat" where
  "multibyte c =
     (if c AND 0xe0 = 0xc0 then Inr (1, 0x7f)
      else if c AND 0xf0 = 0xe0 then Inr (2, 0x7ff)
      else if c AND 0xf8 = 0xf0 then Inr (3, 0xffff)
      else if c AND 0xc0 = 0x80 then Inl UNEXPECTED_CONTINUE
      else Inl BAD_PREFIX)"

text \<open>The loop over the continuation bytes: \<open>res = (res << 6) | (nextChar & 0x3f)\<close>.\<close>

fun continuation :: "nat \<Rightarrow> nat \<Rightarrow> bytes \<Rightarrow> nat option" where
  "continuation 0 res bs = Some res"
| "continuation (Suc j) res [] = None"
| "continuation (Suc j) res (nextChar # bs) =
     (if nextChar AND 0xc0 \<noteq> 0x80 then None
      else continuation j (push_bit 6 res OR unat (nextChar AND 0x3f)) bs)"

text \<open>\<open>getUtf8CodePoints\<close> with the default error handler, which throws at the first fault.\<close>

fun getUtf8CodePoints :: "bytes \<Rightarrow> js_error + nat list" where
  "getUtf8CodePoints [] = Inr []"
| "getUtf8CodePoints (c # rest) =
     (if drop_bit 7 c = 0 then
        (case getUtf8CodePoints rest of
           Inl e \<Rightarrow> Inl e
         | Inr result \<Rightarrow> Inr (unat c # result))
      else
        (case multibyte c of
           Inl e \<Rightarrow> Inl (InvalidCodepoint e)
         | Inr (extraLength, overlongMask) \<Rightarrow>
             if length rest < extraLength then Inl (InvalidCodepoint OVERRUN)
             else
               (case continuation extraLength
                       (unat (c AND (2 ^ (8 - extraLength - 1) - 1))) rest of
                  None \<Rightarrow> Inl (InvalidCodepoint MISSING_CONTINUE)
                | Some res \<Rightarrow>
                    if res > 0x10ffff then Inl (InvalidCodepoint OUT_OF_RANGE)
                    else if 0xd800 \<le> res \<and> res \<le> 0xdfff
                      then Inl (InvalidCodepoint UTF16_SURROGATE)
                    else if res \<le> overlongMask then Inl (InvalidCodepoint OVERLONG)
                    else
                      (case getUtf8CodePoints (drop extraLength rest) of
                         Inl e \<Rightarrow> Inl e
                       | Inr result \<Rightarrow> Inr (res # result)))))"

text \<open>
  \<open>toUtf8String\<close> throws on bytes that are not well-formed UTF-8. Otherwise it returns the
  string of the decoded code points, which in the representation chosen here is the
  byte sequence itself.
\<close>

definition toUtf8String :: "bytes \<Rightarrow> js_error + string" where
  "toUtf8String bs =
     (case getUtf8CodePoints bs of
        Inl e \<Rightarrow> Inl e
      | Inr codePoints \<Rightarrow> Inr (map char_of_byte bs))"

definition HexCharacters :: string where
  "HexCharacters = ''0123456789abcdef''"

definition hexlify :: "bytes \<Rightarrow> string" where
  "hexlify bs =
     ''0x'' @ concat (map (\<lambda>v. [HexCharacters ! unat (drop_bit 4 (v AND 0xf0)),
                                HexCharacters ! unat (v AND 0x0f)]) bs)"

text \<open>The value of a hexadecimal digit, in either case.\<close>

definition hexDigitValue :: "char \<Rightarrow> nat option" where
  "hexDigitValue c =
     (let n = (of_char c :: nat) in
      if 48 \<le> n \<and> n \<le> 57 then Some (n - 48)
      else if 97 \<le> n \<and> n \<le> 102 then Some (n - 87)
      else if 65 \<le> n \<and> n \<le> 70 then Some (n - 55)
      else None)"

fun hexPairs :: "string \<Rightarrow> bytes option" where
  "hexPairs [] = Some []"
| "hexPairs [c] = None"
| "hexPairs (a # b # rest) =
     (case (hexDigitValue a, hexDigitValue b, hexPairs rest) of
        (Some x, Some y, Some bs) \<Rightarrow> Some (of_nat (x * 16 + y) # bs)
      | _ \<Rightarrow> None)"

text \<open>\<open>getBytes\<close> of a string: it must match \<open>/^0x(?:[0-9a-f][0-9a-f])*$/i\<close>.\<close>

definition getBytes :: "string \<Rightarrow> js_error + bytes" where
  "getBytes v =
     (case v of
        z # x # digits \<Rightarrow>
          if z = CHR ''0'' \<and> (x = CHR ''x'' \<or> x = CHR ''X'') then
            (case hexPairs digits of
               Some bs \<Rightarrow> Inr bs
             | None \<Rightarrow> Inl InvalidBytesLike)
          else Inl InvalidBytesLike
      | _ \<Rightarrow> Inl InvalidBytesLike)"



text \<open>\<open>value.toString(16)\<close> of a non-negative bigint: no leading zeros, \<open>"0"\<close> for zero.\<close>

fun toString16 :: "nat \<Rightarrow> string" where
  "toString16 n =
     (if n < 16 then [HexCharacters ! n]
      else toString16 (n div 16) @ [HexCharacters ! (n mod 16)])"

declare toString16.simps [simp del]

text \<open>The loop \<open>while (result.length < width * 2) { result = "0" + result; }\<close>.\<close>

function padZeros :: "string \<Rightarrow> nat \<Rightarrow> string" where
  "padZeros result n = (if length result < n then padZeros (CHR ''0'' # result) n else result)"
  by pat_completeness auto
termination
  by (relation "measure (\<lambda>(result, n). n - length result)") auto

declare padZeros.simps [simp del]

definition toBeHex :: "int \<Rightarrow> nat \<Rightarrow> js_error + string" where
  "toBeHex v width =
     (if v < 0 then Inl NumericFault
      else (let result = toString16 (nat v) in
            if width * 2 < length result then Inl NumericFault
            else Inr (''0x'' @ padZeros result (width * 2))))"

text \<open>
  \<open>BigInt\<close> applied to a string, for the one form the client passes to it: a hexadecimal
  literal \<open>0x\<dots>\<close> with at least one digit.
\<close>

fun parseHex :: "nat \<Rightarrow> string \<Rightarrow> nat option" where
  "parseHex acc [] = Some acc"
| "parseHex acc (c # cs) =
     (case hexDigitValue c of
        None \<Rightarrow> None
      | Some d \<Rightarrow> parseHex (acc * 16 + d) cs)"



text \<open>
  The loop \<open>let length = 31; while (data[length - 1] === 0) { length--; }\<close>. At
  \<open>length = 0\<close> the read \<open>data[-1]\<close> is \<open>undefined\<close>, which is not \<open>0\<close>, and the loop ends.
\<close>

fun nullTermination :: "bytes \<Rightarrow> nat \<Rightarrow> nat" where
  "nullTermination data 0 = 0"
| "nullTermination data (Suc n) = (if data ! n = 0 then nullTermination data n else Suc n)"

definition decodeBytes32String :: "string \<Rightarrow> js_error + string" where
  "decodeBytes32String hex =
     (case getBytes hex of
        Inl e \<Rightarrow> Inl e
      | Inr data \<Rightarrow>
          if length data \<noteq> 32 then Inl NotBytes32
          else if data ! 31 \<noteq> 0 then Inl NoNullTerminator
          else toUtf8String (take (nullTermination data 31) data))"

text \<open>
  Addresses. \<open>toLowerCase\<close> and \<open>toUpperCase\<close> are needed on the letters of hexadecimal
  digits only, so they are written for ASCII letters. \<open>keccak256\<close> is a parameter: the hash
  of the 40 lower-case digits, as bytes; it decides the case of the checksummed form.
\<close>

definition lowerChar :: "char \<Rightarrow> char" where
  "lowerChar c =
     (let n = (of_char c :: nat) in if 65 \<le> n \<and> n \<le> 90 then char_of (n + 32) else c)"

definition upperChar :: "char \<Rightarrow> char" where
  "upperChar c =
     (let n = (of_char c :: nat) in if 97 \<le> n \<and> n \<le> 122 then char_of (n - 32) else c)"



text \<open>The loop over the 20 hash bytes, two characters for each.\<close>

fun checksumCase :: "bytes \<Rightarrow> string \<Rightarrow> string" where
  "checksumCase (h # hashed) (c1 # c2 # chars) =
     (if 8 \<le> drop_bit 4 h then upperChar c1 else c1)
     # (if 8 \<le> h AND 0x0f then upperChar c2 else c2)
     # checksumCase hashed chars"
| "checksumCase hashed chars = chars"







subsection \<open>tasks/SecretVault.ts\<close>






subsection \<open>ui/src/components/SecretApp.tsx\<close>



text \<open>
  \<open>normalizeBigInt\<close> takes \<open>string | bigint | number\<close>; the decrypted 256-bit value is a
  bigint, which it returns as it is. That alternative is the one modelled.
\<close>

definition normalizeBigInt :: "int \<Rightarrow> int" where
  "normalizeBigInt v = v"

text \<open>
  \<open>decodeSecretValue\<close>: \<open>toBeHex\<close> is called outside the \<open>try\<close> block, so its error
  propagates; any error of \<open>decodeBytes32String\<close> is caught and the hex string returned.
\<close>

definition decodeSecretValue :: "int \<Rightarrow> js_error + string" where
  "decodeSecretValue v =
     (case toBeHex (normalizeBigInt v) 32 of
        Inl e \<Rightarrow> Inl e
      | Inr secretHex \<Rightarrow>
          (case decodeBytes32String secretHex of
             Inr s \<Rightarrow> Inr s
           | Inl error \<Rightarrow> Inr secretHex))"


subsection \<open>The order of the calls that leave the client\<close>






subsection \<open>Big-endian bytes\<close>

text \<open>
  The 32-byte slot in the words of the specification: a 256-bit value is the big-endian
  reading of its bytes.
\<close>

fun be_bytes :: "nat \<Rightarrow> nat \<Rightarrow> bytes" where
  "be_bytes 0 v = []"
| "be_bytes (Suc k) v = be_bytes k (v div 256) @ [of_nat (v mod 256)]"

definition be_value :: "bytes \<Rightarrow> nat" where
  "be_value bs = foldl (\<lambda>acc b. acc * 256 + unat b) 0 bs"

text \<open>The \<open>k\<close> low hexadecimal digits of a number, most significant first.\<close>

fun hexDigits :: "nat \<Rightarrow> nat \<Rightarrow> string" where
  "hexDigits 0 n = []"
| "hexDigits (Suc k) n = hexDigits k (n div 16) @ [HexCharacters ! (n mod 16)]"

definition stripTrailingZeros :: "bytes \<Rightarrow> bytes" where
  "stripTrailingZeros bs = rev (dropWhile (\<lambda>b. b = 0) (rev bs))"

definition wellFormedUtf8 :: "bytes \<Rightarrow> bool" where
  "wellFormedUtf8 bs \<longleftrightarrow> (case getUtf8CodePoints bs of Inl _ \<Rightarrow> False | Inr _ \<Rightarrow> True)"

text \<open>
  A valid null-terminated bytes32 string: 32 bytes, the last of them zero, and well-formed
  UTF-8 before the terminating zeros.
\<close>

definition isBytes32String :: "bytes \<Rightarrow> bool" where
  "isBytes32String data \<longleftrightarrow>
     length data = 32 \<and> last data = 0 \<and> wellFormedUtf8 (stripTrailingZeros data)"



section \<open>Properties of the contract\<close>

lemma storeSecret_fails:
  "\<not> proof_ok V this ctx k x p \<Longrightarrow> storeSecret V this ctx k x p s = Inl InvalidProof"
  by (auto simp: proof_ok_def storeSecret_def fromExternal_def split: option.splits)

lemma storeSecret_succeeds:
  assumes "V this (msg_sender ctx) k p = Some key" and "V this (msg_sender ctx) x p = Some secret"
  shows "storeSecret V this ctx k x p s =
     Inr \<lparr>entries = (entries s)(msg_sender ctx := entries s (msg_sender ctx) @
              [\<lparr>encryptedKey = key, encryptedSecret = secret, createdAt = block_timestamp ctx\<rparr>]),
          acl = insert (secret, msg_sender ctx) (insert (key, msg_sender ctx)
                  (insert (secret, this) (insert (key, this) (acl s)))),
          events = events s @ [\<lparr>ev_owner = msg_sender ctx,
                                ev_index = length (entries s (msg_sender ctx)),
                                ev_timestamp = block_timestamp ctx\<rparr>]\<rparr>"
  using assms
  by (auto simp: storeSecret_def fromExternal_def push_entry_def checked_sub_def allow_def
      allowThis_def emit_def Let_def)

lemma storeSecret_Inr_iff:
  "(\<exists>s'. storeSecret V this ctx k x p s = Inr s') \<longleftrightarrow> proof_ok V this ctx k x p"
proof
  assume "\<exists>s'. storeSecret V this ctx k x p s = Inr s'"
  then show "proof_ok V this ctx k x p"
    using storeSecret_fails [of V this ctx k x p s] by (cases "proof_ok V this ctx k x p") auto
next
  assume "proof_ok V this ctx k x p"
  then obtain key secret where
    "V this (msg_sender ctx) k p = Some key" "V this (msg_sender ctx) x p = Some secret"
    by (auto simp: proof_ok_def)
  then show "\<exists>s'. storeSecret V this ctx k x p s = Inr s'"
    using storeSecret_succeeds [of V this ctx k p key x secret s] by simp
qed


lemma storeSecret_cases [case_names fail ok]:
  obtains "\<not> proof_ok V this ctx k x p" and "storeSecret V this ctx k x p s = Inl InvalidProof"
  | key secret where "proof_ok V this ctx k x p"
    and "V this (msg_sender ctx) k p = Some key" and "V this (msg_sender ctx) x p = Some secret"
    and "storeSecret V this ctx k x p s =
      Inr \<lparr>entries = (entries s)(msg_sender ctx := entries s (msg_sender ctx) @
              [\<lparr>encryptedKey = key, encryptedSecret = secret, createdAt = block_timestamp ctx\<rparr>]),
          acl = insert (secret, msg_sender ctx) (insert (key, msg_sender ctx)
                  (insert (secret, this) (insert (key, this) (acl s)))),
          events = events s @ [\<lparr>ev_owner = msg_sender ctx,
                                ev_index = length (entries s (msg_sender ctx)),
                                ev_timestamp = block_timestamp ctx\<rparr>]\<rparr>"
proof (cases "proof_ok V this ctx k x p")
  case False
  then show thesis
    using that(1) storeSecret_fails by blast
next
  case True
  then obtain key secret where
    *: "V this (msg_sender ctx) k p = Some key" "V this (msg_sender ctx) x p = Some secret"
    by (auto simp: proof_ok_def)
  show thesis
    by (rule that(2) [OF True * storeSecret_succeeds]) (rule *)+
qed

lemma exec_view_state:
  "fst (exec V this ctx (GetSecretCount owner) s) = s"
  "fst (exec V this ctx (GetSecretEntry owner i) s) = s"
  by (auto split: sum.splits)

text \<open>The entries of an owner only ever grow at the end.\<close>

lemma exec_entries_prefix:
  "\<exists>ys. entries (fst (exec V this ctx c s)) a = entries s a @ ys"
proof (cases c)
  case (StoreSecret k x p)
  show ?thesis
    by (cases rule: storeSecret_cases [of V this ctx k x p s]) (simp_all add: StoreSecret)
qed (auto split: sum.splits)

lemma storeSecret_entries_prefix:
  "storeSecret V this ctx k x p s = Inr s' \<Longrightarrow> \<exists>ys. entries s' a = entries s a @ ys"
  using exec_entries_prefix [of V this ctx "StoreSecret k x p" s a] by simp

lemma getSecretEntry_prefix:
  "entries s' a = entries s a @ ys \<Longrightarrow> i < length (entries s a) \<Longrightarrow>
     getSecretEntry s' a i = getSecretEntry s a i"
  by (simp add: getSecretEntry_def nth_append)

lemma run_entries_prefix:
  "\<exists>ys. entries (run V this cs s) a = entries s a @ ys"
proof (induction cs arbitrary: s)
  case Nil
  then show ?case by simp
next
  case (Cons c cs)
  obtain ctx cl where c: "c = (ctx, cl)" by (cases c)
  from exec_entries_prefix [of V this ctx cl s a]
  obtain ys where "entries (fst (exec V this ctx cl s)) a = entries s a @ ys" ..
  moreover from Cons.IH [of "fst (exec V this ctx cl s)"]
  obtain zs where "entries (run V this cs (fst (exec V this ctx cl s))) a
      = entries (fst (exec V this ctx cl s)) a @ zs" ..
  ultimately show ?case by (simp add: c)
qed

lemma exec_count:
  "getSecretCount (fst (exec V this ctx c s)) owner =
     getSecretCount s owner + (if stored_by V this owner (ctx, c) then 1 else 0)"
proof (cases c)
  case (StoreSecret k x p)
  show ?thesis
    by (cases rule: storeSecret_cases [of V this ctx k x p s])
      (simp_all add: StoreSecret getSecretCount_def)
qed (auto split: sum.splits)

lemma run_count:
  "getSecretCount (run V this cs s) owner =
     getSecretCount s owner + successful_stores V this owner cs"
proof (induction cs arbitrary: s)
  case Nil
  then show ?case by (simp add: successful_stores_def)
next
  case (Cons c cs)
  obtain ctx cl where c: "c = (ctx, cl)" by (cases c)
  show ?case
    using Cons.IH [of "fst (exec V this ctx cl s)"] exec_count [of V this ctx cl s owner]
    by (simp add: c successful_stores_def)
qed

lemma exec_grants_confined:
  assumes "grants_confined this s"
  shows "grants_confined this (fst (exec V this ctx c s))"
proof (cases c)
  case (StoreSecret k x p)
  show ?thesis
  proof (cases rule: storeSecret_cases [of V this ctx k x p s])
    case fail
    with assms StoreSecret show ?thesis by simp
  next
    case (ok key secret)
    let ?es = "(entries s)(msg_sender ctx := entries s (msg_sender ctx) @
              [\<lparr>encryptedKey = key, encryptedSecret = secret,
                createdAt = block_timestamp ctx\<rparr>])"
    have old: "a = this \<or> (\<exists>e \<in> set (?es a). h = encryptedKey e \<or> h = encryptedSecret e)"
      if "(h, a) \<in> acl s" for h a
    proof -
      from assms that
      have "a = this \<or> (\<exists>e \<in> set (entries s a). h = encryptedKey e \<or> h = encryptedSecret e)"
        by (auto simp: grants_confined_def)
      then show ?thesis
        by (cases "a = msg_sender ctx") auto
    qed
    have new: "\<exists>e \<in> set (?es (msg_sender ctx)). h = encryptedKey e \<or> h = encryptedSecret e"
      if "h = key \<or> h = secret" for h
      using that by auto
    have "a = this \<or> (\<exists>e \<in> set (?es a). h = encryptedKey e \<or> h = encryptedSecret e)"
      if "(h, a) \<in> insert (secret, msg_sender ctx) (insert (key, msg_sender ctx)
                  (insert (secret, this) (insert (key, this) (acl s))))" for h a
    proof -
      from that consider "a = this" | "a = msg_sender ctx" "h = key \<or> h = secret"
        | "(h, a) \<in> acl s" by auto
      then show ?thesis
      proof cases
        case 1
        then show ?thesis by simp
      next
        case 2
        with new [of h] show ?thesis by simp
      next
        case 3
        then show ?thesis by (rule old)
      qed
    qed
    then have "grants_confined this \<lparr>entries = ?es,
        acl = insert (secret, msg_sender ctx) (insert (key, msg_sender ctx)
                  (insert (secret, this) (insert (key, this) (acl s)))),
        events = evs\<rparr>" for evs
      unfolding grants_confined_def by (simp only: vault_state.simps) blast
    then show ?thesis
      using ok StoreSecret by simp
  qed
next
  case (GetSecretCount a)
  with assms show ?thesis by simp
next
  case (GetSecretEntry a i)
  with assms show ?thesis by (simp only: exec_view_state)
qed

lemma run_grants_confined:
  "grants_confined this s \<Longrightarrow> grants_confined this (run V this cs s)"
proof (induction cs arbitrary: s)
  case Nil
  then show ?case by simp
next
  case (Cons c cs)
  obtain ctx cl where c: "c = (ctx, cl)" by (cases c)
  show ?case
    using Cons.IH [OF exec_grants_confined [OF Cons.prems, of V ctx cl]] by (simp add: c)
qed

subsection \<open>Atomic ingestion\<close>

text \<open>
  C2. If the input proof does not verify, \<open>storeSecret\<close> fails and the state after the call is
  the state before it: every count, every entry, the allow-list and the event log are
  unchanged. If it verifies, the call succeeds and the owner's sequence is extended by one
  complete entry, both handles of which are granted to the vault and to the owner. There
  is no third outcome.
\<close>

theorem storeSecret_all_or_nothing:
  "(\<not> proof_ok V this ctx k x p \<longrightarrow>
      exec V this ctx (StoreSecret k x p) s = (s, Inl InvalidProof))
   \<and> (proof_ok V this ctx k x p \<longrightarrow>
      (\<exists>key secret s'.
         exec V this ctx (StoreSecret k x p) s = (s', Inr Stored)
         \<and> entries s' (msg_sender ctx) = entries s (msg_sender ctx) @
              [\<lparr>encryptedKey = key, encryptedSecret = secret, createdAt = block_timestamp ctx\<rparr>]
         \<and> {(key, this), (secret, this), (key, msg_sender ctx), (secret, msg_sender ctx)}
              \<subseteq> acl s'))"
  by (cases rule: storeSecret_cases [of V this ctx k x p s]) simp_all

theorem storeSecret_all_or_nothing_witness:
  "\<not> proof_ok demo_verifier 1 demo_ctx 5 6 [0]
   \<and> exec demo_verifier 1 demo_ctx (StoreSecret 5 6 [0]) init_state
       = (init_state, Inl InvalidProof)
   \<and> proof_ok demo_verifier 1 demo_ctx 5 6 [1]
   \<and> (\<exists>key secret s'.
         exec demo_verifier 1 demo_ctx (StoreSecret 5 6 [1]) init_state = (s', Inr Stored)
         \<and> entries s' (msg_sender demo_ctx) = entries init_state (msg_sender demo_ctx) @
              [\<lparr>encryptedKey = key, encryptedSecret = secret,
                createdAt = block_timestamp demo_ctx\<rparr>]
         \<and> {(key, 1), (secret, 1), (key, msg_sender demo_ctx), (secret, msg_sender demo_ctx)}
              \<subseteq> acl s')"
proof -
  have bad: "\<not> proof_ok demo_verifier 1 demo_ctx 5 6 [0]"
    by (simp add: proof_ok_def demo_verifier_def)
  have good: "proof_ok demo_verifier 1 demo_ctx 5 6 [1]"
    by (simp add: proof_ok_def demo_verifier_def)
  show ?thesis
    using bad good
      storeSecret_all_or_nothing [of demo_verifier 1 demo_ctx 5 6 "[0]" init_state]
      storeSecret_all_or_nothing [of demo_verifier 1 demo_ctx 5 6 "[1]" init_state]
    by blast
qed

subsection \<open>Grants\<close>

text \<open>
  C3. A successful \<open>storeSecret\<close> adds to the allow-list exactly the grants of the two
  materialized handles to the vault and to the submitting owner, and nothing else. In
  every state the contract can reach from deployment, whatever calls were made, each
  grant is held by the vault or by an owner whose own entry carries the handle.
\<close>

theorem storeSecret_grants:
  "(storeSecret V this ctx k x p s = Inr s' \<longrightarrow>
      (\<exists>key secret. V this (msg_sender ctx) k p = Some key
         \<and> V this (msg_sender ctx) x p = Some secret
         \<and> acl s' = acl s \<union> {key, secret} \<times> {this, msg_sender ctx}))
   \<and> grants_confined this (run V this cs init_state)"
proof
  show "storeSecret V this ctx k x p s = Inr s' \<longrightarrow>
      (\<exists>key secret. V this (msg_sender ctx) k p = Some key
         \<and> V this (msg_sender ctx) x p = Some secret
         \<and> acl s' = acl s \<union> {key, secret} \<times> {this, msg_sender ctx})"
    by (cases rule: storeSecret_cases [of V this ctx k x p s]) auto
  have "grants_confined this init_state"
    by (simp add: grants_confined_def init_state_def)
  then show "grants_confined this (run V this cs init_state)"
    by (rule run_grants_confined)
qed

theorem storeSecret_grants_witness:
  "(\<exists>s'. storeSecret demo_verifier 1 demo_ctx 5 6 [1] init_state = Inr s'
      \<and> acl s' = {(5, 1), (5, 2), (6, 1), (6, 2)})
   \<and> grants_confined 1 (run demo_verifier 1
        [(demo_ctx, StoreSecret 5 6 [1]), (demo_ctx', StoreSecret 7 8 [1])] init_state)"
proof -
  obtain s' where s': "storeSecret demo_verifier 1 demo_ctx 5 6 [1] init_state = Inr s'"
    using storeSecret_Inr_iff [of demo_verifier 1 demo_ctx 5 6 "[1]" init_state]
    by (auto simp: proof_ok_def demo_verifier_def)
  note inst = storeSecret_grants [of demo_verifier 1 demo_ctx 5 6 "[1]" init_state s'
      "[(demo_ctx, StoreSecret 5 6 [1]), (demo_ctx', StoreSecret 7 8 [1])]"]
  from inst s' have "acl s' = {(5, 1), (5, 2), (6, 1), (6, 2)}"
    by (auto simp: demo_verifier_def demo_ctx_def init_state_def)
  moreover from inst have "grants_confined 1 (run demo_verifier 1
        [(demo_ctx, StoreSecret 5 6 [1]), (demo_ctx', StoreSecret 7 8 [1])] init_state)"
    by blast
  ultimately show ?thesis
    using s' by blast
qed

subsection \<open>Counting\<close>

text \<open>
  C4. A successful \<open>storeSecret\<close> by an owner increases that owner's count by exactly one.
  \<open>getSecretCount\<close> never fails. After any history of calls since deployment, the count of
  an owner is the number of successful stores that owner made; in particular it is 0 for
  an owner who made none.
\<close>

theorem getSecretCount_counts_stores:
  "(storeSecret V this ctx k x p s = Inr s' \<longrightarrow>
      getSecretCount s' (msg_sender ctx) = getSecretCount s (msg_sender ctx) + 1)
   \<and> exec V this ctx' (GetSecretCount owner) s = (s, Inr (Count (getSecretCount s owner)))
   \<and> getSecretCount (run V this cs init_state) owner = successful_stores V this owner cs
   \<and> (successful_stores V this owner cs = 0 \<longrightarrow>
        getSecretCount (run V this cs init_state) owner = 0)"
proof -
  have "storeSecret V this ctx k x p s = Inr s' \<longrightarrow>
      getSecretCount s' (msg_sender ctx) = getSecretCount s (msg_sender ctx) + 1"
    by (cases rule: storeSecret_cases [of V this ctx k x p s])
      (auto simp: getSecretCount_def)
  moreover have "getSecretCount (run V this cs init_state) owner
      = successful_stores V this owner cs"
    using run_count [of V this cs init_state owner]
    by (simp add: getSecretCount_def init_state_def)
  ultimately show ?thesis by simp
qed

theorem getSecretCount_counts_stores_witness:
  "(\<exists>s'. storeSecret demo_verifier 1 demo_ctx 5 6 [1] init_state = Inr s'
      \<and> getSecretCount s' 2 = getSecretCount init_state 2 + 1
      \<and> getSecretCount s' 2 = 1)
   \<and> successful_stores demo_verifier 1 3 [(demo_ctx, StoreSecret 5 6 [1])] = 0
   \<and> getSecretCount (run demo_verifier 1 [(demo_ctx, StoreSecret 5 6 [1])] init_state) 3 = 0"
proof -
  obtain s' where s': "storeSecret demo_verifier 1 demo_ctx 5 6 [1] init_state = Inr s'"
    using storeSecret_Inr_iff [of demo_verifier 1 demo_ctx 5 6 "[1]" init_state]
    by (auto simp: proof_ok_def demo_verifier_def)
  have none: "successful_stores demo_verifier 1 3 [(demo_ctx, StoreSecret 5 6 [1])] = 0"
    by (simp add: successful_stores_def demo_ctx_def)
  from getSecretCount_counts_stores [of demo_verifier 1 demo_ctx 5 6 "[1]" init_state s'
      demo_ctx 3 "[(demo_ctx, StoreSecret 5 6 [1])]"] s' none
  show ?thesis
    by (auto simp: demo_ctx_def getSecretCount_def init_state_def)
qed

subsection \<open>Indexed reads\<close>

text \<open>
  C5. \<open>getSecretEntry owner index\<close> fails, with the out-of-range error, exactly when
  \<open>index\<close> is at least \<open>getSecretCount owner\<close>; otherwise it returns the three fields of the
  entry stored at that position.
\<close>

theorem getSecretEntry_range:
  "(getSecretEntry s owner index = Inl IndexOutOfRange \<longleftrightarrow> getSecretCount s owner \<le> index)
   \<and> ((\<exists>e. getSecretEntry s owner index = Inl e) \<longleftrightarrow> getSecretCount s owner \<le> index)
   \<and> (index < getSecretCount s owner \<longrightarrow>
        getSecretEntry s owner index =
          Inr (encryptedKey (entries s owner ! index),
               encryptedSecret (entries s owner ! index),
               createdAt (entries s owner ! index)))"
  by (auto simp: getSecretEntry_def getSecretCount_def Let_def)


theorem getSecretEntry_range_witness:
  "0 < getSecretCount (run demo_verifier 1 [(demo_ctx, StoreSecret 5 6 [1])] init_state) 2
   \<and> getSecretEntry (run demo_verifier 1 [(demo_ctx, StoreSecret 5 6 [1])] init_state) 2 0
       = Inr (5, 6, 1700000000)
   \<and> getSecretEntry (run demo_verifier 1 [(demo_ctx, StoreSecret 5 6 [1])] init_state) 2 1
       = Inl IndexOutOfRange"
proof -
  have st: "storeSecret demo_verifier 1 demo_ctx 5 6 [1] init_state =
      Inr \<lparr>entries = (\<lambda>_. [])(2 := [\<lparr>encryptedKey = 5, encryptedSecret = 6,
                                       createdAt = 1700000000\<rparr>]),
           acl = {(6, 2), (5, 2), (6, 1), (5, 1)},
           events = [\<lparr>ev_owner = 2, ev_index = 0, ev_timestamp = 1700000000\<rparr>]\<rparr>"
    using storeSecret_succeeds [of demo_verifier 1 demo_ctx 5 "[1]" 5 6 6 init_state]
    by (simp add: demo_verifier_def demo_ctx_def init_state_def)
  let ?s = "run demo_verifier 1 [(demo_ctx, StoreSecret 5 6 [1])] init_state"
  have cnt: "getSecretCount ?s 2 = 1"
    by (simp add: st getSecretCount_def)
  from getSecretEntry_range [of ?s 2 0] getSecretEntry_range [of ?s 2 1] cnt
  show ?thesis
    by (simp add: st)
qed

subsection \<open>Append and notification\<close>

text \<open>
  C7. A successful \<open>storeSecret\<close> by an owner puts the new entry at the index that was that
  owner's count immediately before the call; reading that index afterwards returns the
  new entry. The call appends exactly one \<open>SecretStored\<close> event to the log, carrying the
  owner, that index, and a timestamp equal to the entry's \<open>createdAt\<close>. After any further
  calls, that index still holds the same entry.
\<close>

theorem storeSecret_appends_and_emits:
  "storeSecret V this ctx k x p s = Inr s' \<longrightarrow>
     (\<exists>key secret.
        V this (msg_sender ctx) k p = Some key \<and> V this (msg_sender ctx) x p = Some secret
        \<and> getSecretCount s' (msg_sender ctx) = getSecretCount s (msg_sender ctx) + 1
        \<and> getSecretEntry s' (msg_sender ctx) (getSecretCount s (msg_sender ctx))
             = Inr (key, secret, block_timestamp ctx)
        \<and> getSecretEntry (run V this cs s') (msg_sender ctx) (getSecretCount s (msg_sender ctx))
             = Inr (key, secret, block_timestamp ctx)
        \<and> events s' = events s @
             [\<lparr>ev_owner = msg_sender ctx, ev_index = getSecretCount s (msg_sender ctx),
               ev_timestamp = block_timestamp ctx\<rparr>]
        \<and> ev_timestamp (last (events s'))
             = createdAt (entries s' (msg_sender ctx) ! getSecretCount s (msg_sender ctx)))"
proof (cases rule: storeSecret_cases [of V this ctx k x p s])
  case fail
  then show ?thesis by simp
next
  case (ok key secret)
  show ?thesis
  proof
    assume s': "storeSecret V this ctx k x p s = Inr s'"
    let ?a = "msg_sender ctx"
    let ?e = "\<lparr>encryptedKey = key, encryptedSecret = secret, createdAt = block_timestamp ctx\<rparr>"
    from s' ok have ent: "entries s' ?a = entries s ?a @ [?e]"
      and evs: "events s' = events s @ [\<lparr>ev_owner = ?a, ev_index = length (entries s ?a),
               ev_timestamp = block_timestamp ctx\<rparr>]"
      by auto
    obtain ys where ys: "entries (run V this cs s') ?a = entries s' ?a @ ys"
      using run_entries_prefix [of V this cs s' ?a] ..
    have "getSecretEntry (run V this cs s') ?a (length (entries s ?a))
        = Inr (key, secret, block_timestamp ctx)"
      by (simp add: getSecretEntry_def ys ent nth_append)
    moreover have "getSecretEntry s' ?a (length (entries s ?a))
        = Inr (key, secret, block_timestamp ctx)"
      by (simp add: getSecretEntry_def ent)
    ultimately show "\<exists>key secret.
        V this ?a k p = Some key \<and> V this ?a x p = Some secret
        \<and> getSecretCount s' ?a = getSecretCount s ?a + 1
        \<and> getSecretEntry s' ?a (getSecretCount s ?a) = Inr (key, secret, block_timestamp ctx)
        \<and> getSecretEntry (run V this cs s') ?a (getSecretCount s ?a)
             = Inr (key, secret, block_timestamp ctx)
        \<and> events s' = events s @
             [\<lparr>ev_owner = ?a, ev_index = getSecretCount s ?a,
               ev_timestamp = block_timestamp ctx\<rparr>]
        \<and> ev_timestamp (last (events s')) = createdAt (entries s' ?a ! getSecretCount s ?a)"
      using ok(2,3) ent evs by (auto simp: getSecretCount_def)
  qed
qed

theorem storeSecret_appends_and_emits_witness:
  "\<exists>s'. storeSecret demo_verifier 1 demo_ctx 5 6 [1] init_state = Inr s'
     \<and> getSecretEntry s' 2 0 = Inr (5, 6, 1700000000)
     \<and> events s' = [\<lparr>ev_owner = 2, ev_index = 0, ev_timestamp = 1700000000\<rparr>]"
proof -
  obtain s' where s': "storeSecret demo_verifier 1 demo_ctx 5 6 [1] init_state = Inr s'"
    using storeSecret_Inr_iff [of demo_verifier 1 demo_ctx 5 6 "[1]" init_state]
    by (auto simp: proof_ok_def demo_verifier_def)
  from storeSecret_appends_and_emits [of demo_verifier 1 demo_ctx 5 6 "[1]" init_state s' "[]"] s'
  show ?thesis
    by (auto simp: demo_verifier_def demo_ctx_def init_state_def getSecretCount_def)
qed

subsection \<open>Index stability\<close>

text \<open>
  C8. A successful \<open>storeSecret\<close>, by whichever caller, leaves every entry that already
  existed readable at the same index with the same content, for every owner; and it
  leaves the count of every owner other than the caller unchanged. The first part holds
  across any sequence of calls.
\<close>

theorem entries_append_only:
  "(storeSecret V this ctx k x p s = Inr s' \<and> index < getSecretCount s owner \<longrightarrow>
      getSecretEntry s' owner index = getSecretEntry s owner index)
   \<and> (storeSecret V this ctx k x p s = Inr s' \<and> msg_sender ctx \<noteq> owner \<longrightarrow>
      getSecretCount s' owner = getSecretCount s owner)
   \<and> (index < getSecretCount s owner \<longrightarrow>
      getSecretEntry (run V this cs s) owner index = getSecretEntry s owner index)"
proof (intro conjI impI)
  assume "storeSecret V this ctx k x p s = Inr s' \<and> index < getSecretCount s owner"
  then have "\<exists>ys. entries s' owner = entries s owner @ ys"
    and "index < length (entries s owner)"
    by (auto simp: getSecretCount_def dest: storeSecret_entries_prefix)
  then show "getSecretEntry s' owner index = getSecretEntry s owner index"
    by (auto intro: getSecretEntry_prefix)
next
  assume "storeSecret V this ctx k x p s = Inr s' \<and> msg_sender ctx \<noteq> owner"
  then show "getSecretCount s' owner = getSecretCount s owner"
    by (cases rule: storeSecret_cases [of V this ctx k x p s])
      (auto simp: getSecretCount_def)
next
  assume "index < getSecretCount s owner"
  moreover obtain ys where "entries (run V this cs s) owner = entries s owner @ ys"
    using run_entries_prefix [of V this cs s owner] ..
  ultimately show "getSecretEntry (run V this cs s) owner index = getSecretEntry s owner index"
    by (auto simp: getSecretCount_def intro: getSecretEntry_prefix)
qed

theorem entries_append_only_witness:
  "\<exists>s'. storeSecret demo_verifier 1 demo_ctx' 7 8 [1] demo_state = Inr s'
     \<and> 0 < getSecretCount demo_state 2 \<and> msg_sender demo_ctx' \<noteq> 2
     \<and> getSecretEntry s' 2 0 = Inr (5, 6, 1700000000)
     \<and> getSecretCount s' 2 = 1
     \<and> getSecretEntry (run demo_verifier 1 [(demo_ctx', StoreSecret 7 8 [1])] demo_state) 2 0
         = Inr (5, 6, 1700000000)"
proof -
  obtain s' where s': "storeSecret demo_verifier 1 demo_ctx' 7 8 [1] demo_state = Inr s'"
    using storeSecret_Inr_iff [of demo_verifier 1 demo_ctx' 7 8 "[1]" demo_state]
    by (auto simp: proof_ok_def demo_verifier_def)
  have cnt: "getSecretCount demo_state 2 = 1" and snd: "msg_sender demo_ctx' \<noteq> 2"
    and ent: "getSecretEntry demo_state 2 0 = Inr (5, 6, 1700000000)"
    by (simp_all add: getSecretCount_def getSecretEntry_def demo_state_def demo_ctx'_def)
  from entries_append_only [of demo_verifier 1 demo_ctx' 7 8 "[1]" demo_state s' 0 2
      "[(demo_ctx', StoreSecret 7 8 [1])]"] s' cnt snd ent
  show ?thesis
    by simp
qed

subsection \<open>Reads\<close>

text \<open>
  C9. \<open>getSecretCount\<close> and \<open>getSecretEntry\<close> return the same result whoever calls them
  and whenever (two call contexts that differ in \<open>msg_sender\<close> and in the block timestamp
  give the same outcome), and neither changes the state.
\<close>

theorem views_are_pure_reads:
  "exec V this ctx1 (GetSecretCount owner) s = exec V this ctx2 (GetSecretCount owner) s
   \<and> exec V this ctx1 (GetSecretEntry owner index) s
       = exec V this ctx2 (GetSecretEntry owner index) s
   \<and> fst (exec V this ctx1 (GetSecretCount owner) s) = s
   \<and> fst (exec V this ctx1 (GetSecretEntry owner index) s) = s"
  by (simp add: exec_view_state del: exec.simps) simp

section \<open>Properties of the client-side encoding\<close>

subsection \<open>Bytes, nibbles and hexadecimal digits\<close>

lemma char_of_byte_of_char [simp]: "char_of_byte (byte_of_char c) = c"
  by (simp add: char_of_byte_def byte_of_char_def unat_of_nat)


lemma lt16_cases:
  "d < 16 \<Longrightarrow> d \<in> {0, 1, 2, 3, 4, 5, 6, 7, 8, 9, 10, 11, 12, 13, 14, 15 :: nat}"
  by (simp; arith)

lemma hexDigitValue_HexCharacters: "d < 16 \<Longrightarrow> hexDigitValue (HexCharacters ! d) = Some d"
  by (drule lt16_cases) (auto simp: HexCharacters_def hexDigitValue_def)

lemma drop_bit_and_high:
  "drop_bit k (v AND push_bit k (mask m)) = drop_bit k v" if "LENGTH('a) \<le> k + m"
  for v :: "'a::len word"
proof (rule bit_word_eqI)
  fix n
  assume "n < LENGTH('a)"
  have "bit v (k + n) \<Longrightarrow> n < m \<and> k + n < LENGTH('a) \<and> n < LENGTH('a)"
    using bit_imp_le_length [of v "k + n"] that by simp
  then show "bit (drop_bit k (v AND push_bit k (mask m))) n = bit (drop_bit k v) n"
    by (auto simp: bit_simps)
qed

lemma hi_nibble: "unat (drop_bit 4 (v AND 0xf0)) = unat v div 16" for v :: "8 word"
proof -
  have "(0xf0 :: 8 word) = push_bit 4 (mask 4)"
    by (simp add: mask_eq_exp_minus_1)
  then have "drop_bit 4 (v AND 0xf0) = drop_bit 4 v"
    using drop_bit_and_high [of 4 4 v] by simp
  then show ?thesis
    by (simp add: drop_bit_eq_div unat_div)
qed

lemma lo_nibble: "unat (v AND 0x0f) = unat v mod 16" for v :: "8 word"
proof -
  have "v AND 0x0f = take_bit 4 v"
    by (simp add: take_bit_eq_mask mask_eq_exp_minus_1)
  then show ?thesis
    by (simp add: unsigned_take_bit_eq take_bit_eq_mod unat_mod)
qed

lemma unat_byte_less: "unat v < 256" for v :: "8 word"
proof -
  have "unat v < 2 ^ LENGTH(8)"
    by (rule unsigned_less)
  then show ?thesis by simp
qed

lemma hexlify_nibbles:
  "hexlify bs = ''0x'' @ concat (map (\<lambda>v. [HexCharacters ! (unat v div 16),
                                            HexCharacters ! (unat v mod 16)]) bs)"
  by (simp only: hexlify_def hi_nibble lo_nibble)

lemma hexPairs_nibbles:
  "hexPairs (concat (map (\<lambda>v. [HexCharacters ! (unat v div 16),
                               HexCharacters ! (unat v mod 16)]) bs)) = Some bs"
proof (induction bs)
  case Nil
  then show ?case by simp
next
  case (Cons b bs)
  have "unat b div 16 < 16"
    using unat_byte_less [of b] by simp
  then show ?case
    using Cons by (simp add: hexDigitValue_HexCharacters)
qed

lemma getBytes_hexlify: "getBytes (hexlify bs) = Inr bs"
  by (simp add: getBytes_def hexlify_nibbles hexPairs_nibbles)



subsection \<open>Big-endian values\<close>

lemma be_value_snoc: "be_value (bs @ [b]) = be_value bs * 256 + unat b"
  by (simp add: be_value_def)


lemma length_be_bytes [simp]: "length (be_bytes w n) = w"
  by (induction w arbitrary: n) simp_all

lemma be_bytes_be_value: "be_bytes (length bs) (be_value bs) = bs"
proof (induction bs rule: rev_induct)
  case Nil
  then show ?case by simp
next
  case (snoc b bs)
  have "(be_value bs * 256 + unat b) div 256 = be_value bs"
    and "(be_value bs * 256 + unat b) mod 256 = unat b"
    using unat_byte_less [of b] by simp_all
  then show ?case
    using snoc by (simp add: be_value_snoc)
qed

subsection \<open>\<open>toBeHex\<close>\<close>

lemma padZeros_replicate: "padZeros r n = replicate (n - length r) CHR ''0'' @ r"
proof (induction r n rule: padZeros.induct)
  case (1 result n)
  show ?case
  proof (cases "length result < n")
    case True
    then have "n - length result = Suc (n - Suc (length result))" by simp
    with True 1 show ?thesis
      by (subst padZeros.simps) (simp add: replicate_app_Cons_same)
  next
    case False
    then show ?thesis
      by (subst padZeros.simps) simp
  qed
qed

lemma hexDigits_zero: "hexDigits k 0 = replicate k CHR ''0''"
  by (induction k) (simp_all add: HexCharacters_def replicate_append_same)

lemma toString16_hexDigits:
  "n < 16 ^ k \<Longrightarrow> 0 < k \<Longrightarrow>
     length (toString16 n) \<le> k \<and>
     replicate (k - length (toString16 n)) CHR ''0'' @ toString16 n = hexDigits k n"
proof (induction k arbitrary: n)
  case 0
  then show ?case by simp
next
  case (Suc k)
  show ?case
  proof (cases "n < 16")
    case True
    then have "toString16 n = [HexCharacters ! n]"
      by (subst toString16.simps) simp
    with True show ?thesis
      by (simp add: hexDigits_zero)
  next
    case False
    then have ts: "toString16 n = toString16 (n div 16) @ [HexCharacters ! (n mod 16)]"
      by (subst toString16.simps) simp
    from False Suc.prems have "0 < k"
      by (cases k) simp_all
    moreover from Suc.prems have "n div 16 < 16 ^ k"
      by (simp add: less_mult_imp_div_less mult.commute)
    ultimately have "length (toString16 (n div 16)) \<le> k"
      and "replicate (k - length (toString16 (n div 16))) CHR ''0'' @ toString16 (n div 16)
            = hexDigits k (n div 16)"
      using Suc.IH [of "n div 16"] by simp_all
    then show ?thesis
      by (simp add: ts)
  qed
qed

lemma hexDigits_be_bytes:
  "hexDigits (2 * w) n = concat (map (\<lambda>v. [HexCharacters ! (unat v div 16),
                                            HexCharacters ! (unat v mod 16)]) (be_bytes w n))"
proof (induction w arbitrary: n)
  case 0
  then show ?case by simp
next
  case (Suc w)
  have "unat (of_nat (n mod 256) :: 8 word) = n mod 256"
    by (simp add: unat_of_nat)
  moreover have "n mod 256 = 16 * (n div 16 mod 16) + n mod 16"
    using mod_mult2_eq [of n 16 16] by simp
  then have "n mod 256 div 16 = n div 16 mod 16" and "n mod 256 mod 16 = n mod 16"
    by simp_all
  moreover have "n div 16 div 16 = n div 256"
    using div_mult2_eq [of n 16 16] by simp
  ultimately show ?case
    using Suc [of "n div 256"] by simp
qed

lemma toBeHex_be_bytes:
  assumes "0 \<le> v" and "v < 256 ^ w" and "0 < w"
  shows "toBeHex v w = Inr (hexlify (be_bytes w (nat v)))"
proof -
  have p: "(16::nat) ^ (w * 2) = 256 ^ w"
    by (induction w) simp_all
  from assms have "int (nat v) < int (256 ^ w)"
    by simp
  then have "nat v < 16 ^ (w * 2)"
    by (simp only: p of_nat_less_iff)
  with \<open>0 < w\<close> have "length (toString16 (nat v)) \<le> w * 2"
    and "replicate (w * 2 - length (toString16 (nat v))) CHR ''0'' @ toString16 (nat v)
          = hexDigits (w * 2) (nat v)"
    using toString16_hexDigits [of "nat v" "w * 2"] by simp_all
  then have "toBeHex v w = Inr (''0x'' @ hexDigits (w * 2) (nat v))"
    using \<open>0 \<le> v\<close> by (simp add: toBeHex_def Let_def padZeros_replicate)
  also have "hexDigits (w * 2) (nat v) = hexDigits (2 * w) (nat v)"
    by (simp add: mult.commute)
  finally show ?thesis
    by (simp only: hexlify_nibbles hexDigits_be_bytes)
qed

subsection \<open>\<open>decodeBytes32String\<close>\<close>

lemma stripTrailingZeros_snoc:
  "stripTrailingZeros (bs @ [b]) = (if b = 0 then stripTrailingZeros bs else bs @ [b])"
  by (simp add: stripTrailingZeros_def)

lemma stripTrailingZeros_replicate:
  "stripTrailingZeros (bs @ replicate k 0) = stripTrailingZeros bs"
proof (induction k)
  case 0
  then show ?case by simp
next
  case (Suc k)
  have "bs @ replicate (Suc k) 0 = (bs @ replicate k 0) @ [0]"
    by (simp add: replicate_append_same)
  then have "stripTrailingZeros (bs @ replicate (Suc k) 0)
      = stripTrailingZeros ((bs @ replicate k 0) @ [0])"
    by (simp only:)
  also have "\<dots> = stripTrailingZeros (bs @ replicate k 0)"
    by (simp only: stripTrailingZeros_snoc simp_thms if_True)
  finally show ?case
    by (simp only: Suc)
qed

lemma stripTrailingZeros_id:
  "bs \<noteq> [] \<Longrightarrow> last bs \<noteq> 0 \<Longrightarrow> stripTrailingZeros bs = bs"
  by (cases bs rule: rev_cases) (simp_all add: stripTrailingZeros_snoc)

lemma nullTermination_strip:
  "n \<le> length data \<Longrightarrow>
     take (nullTermination data n) data = stripTrailingZeros (take n data)"
proof (induction n)
  case 0
  then show ?case by (simp add: stripTrailingZeros_def)
next
  case (Suc n)
  then have "take (Suc n) data = take n data @ [data ! n]"
    by (simp add: take_Suc_conv_app_nth)
  with Suc show ?case
    by (simp add: stripTrailingZeros_snoc)
qed

lemma decodeBytes32String_hexlify:
  assumes "length data = 32"
  shows "decodeBytes32String (hexlify data) =
     (if last data \<noteq> 0 then Inl NoNullTerminator
      else toUtf8String (stripTrailingZeros data))"
proof -
  from assms have "data \<noteq> []" by auto
  with assms have l: "last data = data ! 31"
    by (simp add: last_conv_nth)
  from assms have d: "data = take 31 data @ [data ! 31]"
    using take_Suc_conv_app_nth [of 31 data] by simp
  have "last data = 0 \<Longrightarrow> stripTrailingZeros data = stripTrailingZeros (take 31 data)"
    using l by (subst d) (simp add: stripTrailingZeros_snoc)
  moreover have "take (nullTermination data 31) data = stripTrailingZeros (take 31 data)"
    using assms by (simp add: nullTermination_strip)
  ultimately show ?thesis
    using assms l by (simp add: decodeBytes32String_def getBytes_hexlify)
qed

lemma toUtf8String_wellFormed:
  "toUtf8String bs = (if wellFormedUtf8 bs then Inr (map char_of_byte bs)
                      else Inl (case getUtf8CodePoints bs of Inl e \<Rightarrow> e))"
  by (simp add: toUtf8String_def wellFormedUtf8_def split: sum.splits)

lemma be_value_be_bytes: "n < 256 ^ w \<Longrightarrow> be_value (be_bytes w n) = n"
proof (induction w arbitrary: n)
  case 0
  then show ?case by (simp add: be_value_def)
next
  case (Suc w)
  then have "n div 256 < 256 ^ w"
    by (simp add: less_mult_imp_div_less mult.commute)
  with Suc.IH [of "n div 256"] show ?case
    by (simp add: be_value_snoc unat_of_nat)
qed







subsection \<open>Input validation\<close>







subsection \<open>Decoding a decrypted value for display\<close>

text \<open>
  C10. For every value of 256 bits \<open>decodeSecretValue\<close> returns a string and does not
  throw. With the value read as 32 big-endian bytes: when these form a null-terminated
  bytes32 string (the last byte is zero and the bytes before the trailing zeros are
  well-formed UTF-8) the result is that text, and otherwise it is the hexadecimal form
  of the 32 bytes, \<open>0x\<close> followed by 64 digits.
\<close>

theorem decodeSecretValue_total:
  assumes "0 \<le> v" and "v < 2 ^ 256"
  shows "decodeSecretValue v =
      Inr (if isBytes32String (be_bytes 32 (nat v))
           then map char_of_byte (stripTrailingZeros (be_bytes 32 (nat v)))
           else hexlify (be_bytes 32 (nat v)))
    \<and> be_value (be_bytes 32 (nat v)) = nat v
    \<and> length (hexlify (be_bytes 32 (nat v))) = 66"
proof -
  let ?data = "be_bytes 32 (nat v)"
  from assms have "v < 256 ^ 32" by simp
  with assms have hex: "toBeHex v 32 = Inr (hexlify ?data)"
    using toBeHex_be_bytes [of v 32] by simp
  have dec: "decodeBytes32String (hexlify ?data) =
     (if last ?data \<noteq> 0 then Inl NoNullTerminator
      else toUtf8String (stripTrailingZeros ?data))"
    by (rule decodeBytes32String_hexlify) simp
  have "decodeSecretValue v =
      Inr (if isBytes32String ?data then map char_of_byte (stripTrailingZeros ?data)
           else hexlify ?data)"
    by (simp add: decodeSecretValue_def normalizeBigInt_def hex dec isBytes32String_def
        toUtf8String_wellFormed)
  moreover from assms have "nat v < 256 ^ 32"
    by (simp add: nat_less_iff)
  then have "be_value ?data = nat v"
    by (rule be_value_be_bytes)
  moreover have "length (hexlify ?data) = 66"
    by (simp add: hexlify_nibbles length_concat o_def sum_list_triv)
  ultimately show ?thesis by blast
qed

lemma be_value_zeros: "be_value (bs @ replicate k 0) = be_value bs * 256 ^ k"
proof (induction k)
  case 0
  then show ?case by simp
next
  case (Suc k)
  have "bs @ replicate (Suc k) 0 = (bs @ replicate k 0) @ [0]"
    by (simp add: replicate_append_same)
  then show ?case
    by (simp only: be_value_snoc Suc) simp
qed


lemma vault_secret_chars:
  "map char_of_byte [0x76, 0x61, 0x75, 0x6c, 0x74, 0x20, 0x73, 0x65, 0x63, 0x72, 0x65, 0x74]
     = ''vault secret''"
  by (simp add: char_of_byte_def char_of_def bit_Suc_0_iff)

lemma vault_secret_value:
  "be_value ([0x76, 0x61, 0x75, 0x6c, 0x74, 0x20, 0x73, 0x65, 0x63, 0x72, 0x65, 0x74]
       @ replicate 20 0)
     = 0x7661756c74207365637265740000000000000000000000000000000000000000"
  by (subst be_value_zeros) (simp add: be_value_def)

lemma vault_secret_wellFormed:
  "wellFormedUtf8 [0x76, 0x61, 0x75, 0x6c, 0x74, 0x20, 0x73, 0x65, 0x63, 0x72, 0x65, 0x74]"
  by (simp add: wellFormedUtf8_def)

theorem decodeSecretValue_total_witness:
  "(0::int) \<le> 255 \<and> (255::int) < 2 ^ 256
   \<and> decodeSecretValue 255
       = Inr ''0x00000000000000000000000000000000000000000000000000000000000000ff''
   \<and> (0::int) \<le> 0x7661756c74207365637265740000000000000000000000000000000000000000
   \<and> (0x7661756c74207365637265740000000000000000000000000000000000000000::int) < 2 ^ 256
   \<and> decodeSecretValue 0x7661756c74207365637265740000000000000000000000000000000000000000
       = Inr ''vault secret''"
proof -
  let ?v = "0x7661756c74207365637265740000000000000000000000000000000000000000 :: int"
  let ?text = "[0x76, 0x61, 0x75, 0x6c, 0x74, 0x20, 0x73, 0x65, 0x63, 0x72, 0x65, 0x74] :: bytes"
  let ?data = "?text @ replicate 20 0"
  have hex: "decodeSecretValue 255
      = Inr ''0x00000000000000000000000000000000000000000000000000000000000000ff''"
    by code_simp
  have "be_bytes (length ?data) (be_value ?data) = ?data"
    by (rule be_bytes_be_value)
  then have data: "be_bytes 32 (nat ?v) = ?data"
    by (simp only: vault_secret_value) simp
  have strip: "stripTrailingZeros ?data = ?text"
    by (subst stripTrailingZeros_replicate) (simp add: stripTrailingZeros_id)
  have "isBytes32String ?data"
    unfolding isBytes32String_def strip using vault_secret_wellFormed by simp
  then have "decodeSecretValue ?v = Inr (map char_of_byte ?text)"
    using decodeSecretValue_total [of ?v] by (simp only: data strip) simp
  also have "map char_of_byte ?text = ''vault secret''"
    by (rule vault_secret_chars)
  finally show ?thesis
    using hex by simp
qed


subsection \<open>Hexadecimal digits and letter case\<close>

lemma hexDigitValue_lowerChar: "hexDigitValue (lowerChar c) = hexDigitValue c"
  by (auto simp: hexDigitValue_def lowerChar_def Let_def)


lemma lowerChar_idem: "lowerChar (lowerChar c) = lowerChar c"
  by (auto simp: lowerChar_def Let_def)






lemma parseHex_lowerChar: "parseHex acc (map lowerChar ds) = parseHex acc ds"
  by (induction ds arbitrary: acc) (simp_all add: hexDigitValue_lowerChar split: option.splits)


lemma length_checksumCase [simp]: "length (checksumCase hs ds) = length ds"
  by (induction hs ds rule: checksumCase.induct) simp_all




subsection \<open>\<open>getAddress\<close>\<close>






subsection \<open>Round trip\<close>









end
